theory Spec2Isabelle
  imports Complex_Main "HOL-Library.Stream"
begin

section \<open>TDMA slot-timing model (firmware/tests/sync\_timing\_stress.py)\<close>

text \<open>
  Python integers are unbounded, so they are modelled as \<^typ>\<open>int\<close>; the floor
  division \<open>//\<close> of Python is \<open>div\<close> on \<^typ>\<open>int\<close>.
\<close>

subsection \<open>Timing constants\<close>

definition TDMA_FRAME_PERIOD_MS :: int where "TDMA_FRAME_PERIOD_MS = 20"
definition TDMA_FRAME_PERIOD_US :: int where "TDMA_FRAME_PERIOD_US = TDMA_FRAME_PERIOD_MS * 1000"
definition TDMA_BEACON_DURATION_US :: int where "TDMA_BEACON_DURATION_US = 500"
definition TDMA_FIRST_SLOT_GAP_US :: int where "TDMA_FIRST_SLOT_GAP_US = 500"
definition TDMA_GUARD_TIME_US :: int where "TDMA_GUARD_TIME_US = 2000"
definition TDMA_SLOT_MIN_WIDTH_US :: int where "TDMA_SLOT_MIN_WIDTH_US = 2500"
definition TDMA_SENSOR_DATA_SIZE :: int where "TDMA_SENSOR_DATA_SIZE = 25"
definition TDMA_DATA_HEADER_SIZE :: int where "TDMA_DATA_HEADER_SIZE = 8"
definition TDMA_SAMPLES_PER_FRAME :: int where "TDMA_SAMPLES_PER_FRAME = 4"

definition FIXED_OVERHEAD_US :: int where "FIXED_OVERHEAD_US = 1500"
definition INTER_SLOT_GAP_US :: int where "INTER_SLOT_GAP_US = 100"

definition OFDM_PREAMBLE_US :: int where "OFDM_PREAMBLE_US = 20"
definition OFDM_N_DBPS :: int where "OFDM_N_DBPS = 24"
definition OFDM_SYMBOL_US :: int where "OFDM_SYMBOL_US = 4"
definition OFDM_SIFS_US :: int where "OFDM_SIFS_US = 10"
definition OFDM_ACK_US :: int where "OFDM_ACK_US = 44"
definition FRAME_OVERHEAD_BYTES :: int where "FRAME_OVERHEAD_BYTES = 38"

definition RANDOM_DISTRIBUTIONS :: int where "RANDOM_DISTRIBUTIONS = 1000"
definition FREEWHEEL_FRAMES :: int where "FREEWHEEL_FRAMES = 2"
definition MAX_NODES :: int where "MAX_NODES = 8"
definition MAX_TOTAL_SENSORS :: int where "MAX_TOTAL_SENSORS = 16"

subsection \<open>Slot width and frame time\<close>

text \<open>
  \<open>calculate_slot_width\<close>: the early return for a non-positive count, the OFDM
  airtime with its ceiling division, then the two clamps in the order of the source
  (first the floor \<open>TDMA_SLOT_MIN_WIDTH_US\<close>, then the ceiling \<open>0xFFFF\<close>).
\<close>

definition calculate_slot_width :: "int \<Rightarrow> int" where
  "calculate_slot_width sensor_count =
     (if sensor_count \<le> 0 then 0
      else
        let payload_bytes =
              TDMA_DATA_HEADER_SIZE
              + (TDMA_SAMPLES_PER_FRAME * sensor_count * TDMA_SENSOR_DATA_SIZE)
              + 1;
            ofdm_bits = 326 + 8 * payload_bytes;
            ofdm_syms = (ofdm_bits + OFDM_N_DBPS - 1) div OFDM_N_DBPS;
            data_frame_us = OFDM_PREAMBLE_US + OFDM_SYMBOL_US * ofdm_syms;
            airtime_us = data_frame_us + OFDM_SIFS_US + OFDM_ACK_US;
            total_us = FIXED_OVERHEAD_US + airtime_us;
            total_us = (if total_us < TDMA_SLOT_MIN_WIDTH_US
                        then TDMA_SLOT_MIN_WIDTH_US else total_us);
            total_us = (if total_us > 0xFFFF then 0xFFFF else total_us)
        in total_us)"

text \<open>
  \<open>calculate_frame_time\<close>: an empty sequence is falsy in Python and returns the
  beacon duration alone; \<open>sum(... for s in sensor_counts)\<close> is \<open>sum_list\<close> over
  \<open>map\<close>, and \<open>len\<close> is \<open>int (length _)\<close>.
\<close>

definition calculate_frame_time :: "int list \<Rightarrow> int" where
  "calculate_frame_time sensor_counts =
     (if sensor_counts = [] then TDMA_BEACON_DURATION_US
      else
        let total_slot_time = sum_list (map calculate_slot_width sensor_counts);
            frame_time =
              TDMA_BEACON_DURATION_US
              + TDMA_FIRST_SLOT_GAP_US
              + total_slot_time
              + (int (length sensor_counts) - 1) * INTER_SLOT_GAP_US
              + TDMA_GUARD_TIME_US
        in frame_time)"

subsection \<open>Errors\<close>

text \<open>
  The exceptions that the calls of the simulator can raise: \<open>random.sample\<close> raises
  \<open>ValueError\<close> for a sample size that is negative or larger than the population,
  and the true division of two integers raises \<open>ZeroDivisionError\<close> or
  \<open>OverflowError\<close>.
\<close>

datatype error = ValueError | ZeroDivisionError | OverflowError

subsection \<open>The random generator and \<open>random.sample\<close>\<close>

text \<open>
  The state of the generator of Python's \<open>random\<close> module is abstracted to the
  stream of raw numbers it is still going to produce; a draw below \<open>n\<close> takes the head
  of the stream modulo \<open>n\<close> and leaves the tail as the next state. A statement that
  holds for every stream holds for every seed.
\<close>

type_synonym rng = "nat stream"

definition randbelow :: "nat \<Rightarrow> rng \<Rightarrow> nat \<times> rng" where
  "randbelow n g = (shd g mod n, stl g)"

text \<open>
  \<open>random.sample(population, k)\<close> belongs to the standard library, not to this
  repository; it is transcribed from the library's source. It rejects a \<open>k\<close> outside
  \<open>0 \<le> k \<le> len(population)\<close> with \<open>ValueError\<close> and then selects in one of two
  ways, by the size \<open>n\<close> of the population:
  \<^item> for \<open>n \<le> setsize\<close>, from a pool: \<open>k\<close> times, draw an index below the current
    pool size, take the element there, and move the last element of the pool into the
    vacancy (\<open>sample_pool\<close>);
  \<^item> otherwise, with a set of the indices selected so far: \<open>k\<close> times, draw an index
    below \<open>n\<close>, draw again while the index is in the set, add it to the set and take
    the element of the population there (\<open>sample_set\<close>).

  \<open>setsize\<close> is 21, plus \<open>4 ** ceil(log(k * 3, 4))\<close> when \<open>k > 5\<close>. The library
  computes that exponent with floating-point logarithms, which can stray from the exact
  one only when \<open>3k\<close> is next to a large power of 4; \<open>ceil_log4 m\<close> is the exact
  exponent, the least \<open>c\<close> with \<open>m \<le> 4 ^ c\<close> (lemmas \<open>ceil_log4_ge\<close> and
  \<open>ceil_log4_least\<close>).

  The loop \<open>while j in selected: j = randbelow(n)\<close> need not end: on a stream whose
  draws all fall into the set it runs forever. It is the partial function \<open>redraw\<close>,
  and not returning is the result \<open>None\<close>. The functions that call it, directly or not,
  return an option as well: \<open>None\<close> when the call does not return, \<open>Some (Inl e)\<close>
  when it raises \<open>e\<close>, \<open>Some (Inr v)\<close> when it returns \<open>v\<close>.
\<close>

function ceil_log4 :: "int \<Rightarrow> nat" where
  "ceil_log4 m = (if m \<le> 1 then 0 else Suc (ceil_log4 ((m + 3) div 4)))"
  by pat_completeness auto
termination
  by (relation "measure nat") auto

declare ceil_log4.simps [simp del]

definition setsize :: "int \<Rightarrow> int" where
  "setsize k = (if k > 5 then 21 + 4 ^ ceil_log4 (k * 3) else 21)"

fun sample_pool :: "rng \<Rightarrow> 'a list \<Rightarrow> nat \<Rightarrow> 'a list \<times> rng" where
  "sample_pool g pool 0 = ([], g)"
| "sample_pool g pool (Suc k) =
     (let (j, g1) = randbelow (length pool) g;
          x = pool ! j;
          pool' = butlast (pool[j := last pool]);
          (rest, g2) = sample_pool g1 pool' k
      in (x # rest, g2))"

partial_function (option) redraw :: "nat \<Rightarrow> nat set \<Rightarrow> rng \<Rightarrow> (nat \<times> rng) option" where
  "redraw n selected g =
     (case randbelow n g of
        (j, g1) \<Rightarrow> if j \<in> selected then redraw n selected g1 else Some (j, g1))"

fun sample_set :: "rng \<Rightarrow> 'a list \<Rightarrow> nat set \<Rightarrow> nat \<Rightarrow> ('a list \<times> rng) option" where
  "sample_set g population selected 0 = Some ([], g)"
| "sample_set g population selected (Suc k) =
     (case redraw (length population) selected g of
        None \<Rightarrow> None
      | Some (j, g1) \<Rightarrow>
          (case sample_set g1 population (insert j selected) k of
             None \<Rightarrow> None
           | Some (rest, g2) \<Rightarrow> Some (population ! j # rest, g2)))"

definition sample :: "rng \<Rightarrow> 'a list \<Rightarrow> int \<Rightarrow> (error + ('a list \<times> rng)) option" where
  "sample g population k =
     (let n = int (length population)
      in if \<not> (0 \<le> k \<and> k \<le> n) then Some (Inl ValueError)
         else if n \<le> setsize k then Some (Inr (sample_pool g population (nat k)))
         else map_option Inr (sample_set g population {} (nat k)))"

text \<open>
  A stream is fair for \<open>n\<close> when every index below \<open>n\<close> keeps being drawn from it.
  On a fair stream the redrawing ends.
\<close>

definition fair :: "nat \<Rightarrow> rng \<Rightarrow> bool" where
  "fair n g = (\<forall>j<n. \<forall>i. \<exists>i'\<ge>i. g !! i' mod n = j)"

subsection \<open>Random partitions\<close>

text \<open>
  \<open>random_partition(total, parts)\<close>: \<open>range(1, total)\<close> is the list \<open>[1..total - 1]\<close>;
  the \<open>for c in cuts\<close> loop, with its variables \<open>counts\<close> and \<open>prev\<close>, is
  \<open>partition_loop\<close>; the generator state is passed in and returned. The parameter
  \<open>total\<close> is written \<open>tot\<close>.
\<close>

fun partition_loop :: "int list \<Rightarrow> int list \<Rightarrow> int \<Rightarrow> int list \<times> int" where
  "partition_loop [] counts prev = (counts, prev)"
| "partition_loop (c # cuts) counts prev = partition_loop cuts (counts @ [c - prev]) c"

definition random_partition :: "rng \<Rightarrow> int \<Rightarrow> int \<Rightarrow> (error + (int list \<times> rng)) option" where
  "random_partition g tot parts =
     (case sample g [1..tot - 1] (parts - 1) of
        None \<Rightarrow> None
      | Some (Inl e) \<Rightarrow> Some (Inl e)
      | Some (Inr (s, g')) \<Rightarrow>
          (let cuts = sort s;
               (counts, prev) = partition_loop cuts [] 0
           in Some (Inr (counts @ [tot - prev], g'))))"

subsection \<open>Floating point\<close>

text \<open>
  Python's \<open>float\<close> is the IEEE 754 binary64 format. A finite double is modelled by
  the rational number it denotes, and an operation by the exact result rounded to the
  nearest double, ties to the even significand: \<open>double_round\<close>. The unit in the last
  place of a number with binary exponent \<open>e\<close> is \<open>2 powi (e - 52)\<close>; below the normal
  range (\<open>e < -1022\<close>) the spacing of the subnormal numbers is used. Infinities and NaN
  are not modelled: every float of this program lies between 0 and 528080.

  \<open>bit_length n\<close> is the number of binary digits of a positive integer, so that
  \<open>float_exponent x\<close> is the integer \<open>e\<close> with \<open>2 powi e \<le> x < 2 powi (e + 1)\<close>
  for positive \<open>x\<close> (lemma \<open>float_exponent_bounds\<close>).
\<close>

type_synonym double = rat

definition round_half_even :: "rat \<Rightarrow> int" where
  "round_half_even x =
     (let f = \<lfloor>x\<rfloor>; d = x - of_int f
      in if d < 1 / 2 then f else if 1 / 2 < d then f + 1 else if even f then f else f + 1)"

function bit_length :: "int \<Rightarrow> int" where
  "bit_length n = (if n \<le> 0 then 0 else 1 + bit_length (n div 2))"
  by pat_completeness auto
termination
  by (relation "measure nat") auto

declare bit_length.simps [simp del]

definition float_exponent :: "rat \<Rightarrow> int" where
  "float_exponent x =
     (if 1 \<le> x then bit_length \<lfloor>x\<rfloor> - 1
      else - bit_length (\<lceil>1 / x\<rceil> - 1))"

definition double_round :: "rat \<Rightarrow> double" where
  "double_round x =
     (if x = 0 then 0
      else
        let e = max (float_exponent \<bar>x\<bar>) (- 1022);
            ulp = 2 powi (e - 52)
        in sgn x * of_int (round_half_even (\<bar>x\<bar> / ulp)) * ulp)"

text \<open>
  The float operations of the program: \<open>**\<close> with an integer exponent, \<open>-\<close> and
  \<open>*\<close>. \<open>float_pow\<close> is the correctly rounded power. Python hands \<open>**\<close> to the
  C library's \<open>pow\<close>, whose last digit may differ; the lemma \<open>beacon_ok_robust\<close>
  shows that the estimate does not depend on it.
\<close>

definition float_pow :: "double \<Rightarrow> int \<Rightarrow> double" where
  "float_pow x n = double_round (x powi n)"

definition float_sub :: "double \<Rightarrow> double \<Rightarrow> double" where
  "float_sub x y = double_round (x - y)"

definition float_mul :: "double \<Rightarrow> double \<Rightarrow> double" where
  "float_mul x y = double_round (x * y)"

text \<open>
  The true division \<open>/\<close> of two Python integers is correctly rounded; it raises
  \<open>ZeroDivisionError\<close> for a zero divisor and \<open>OverflowError\<close> when the rounded
  quotient is beyond the largest double, which is when the magnitude of the exact
  quotient reaches \<open>2^1024 - 2^970\<close>.
\<close>

definition int_truediv :: "int \<Rightarrow> int \<Rightarrow> error + double" where
  "int_truediv a b =
     (if b = 0 then Inl ZeroDivisionError
      else if (2 ^ 54 - 1) * 2 ^ 970 \<le> \<bar>of_int a / of_int b :: rat\<bar> then Inl OverflowError
      else Inr (double_round (of_int a / of_int b)))"

subsection \<open>Estimated success rate\<close>

text \<open>The literal \<open>0.10\<close> denotes the double nearest to one tenth.\<close>

definition PACKET_LOSS_PROB :: double where
  "PACKET_LOSS_PROB = double_round (1 / 10)"

definition estimated_success_rate :: "double \<Rightarrow> double" where
  "estimated_success_rate schedule_ok =
     (let drop_prob = float_pow PACKET_LOSS_PROB (FREEWHEEL_FRAMES + 1);
          beacon_ok = float_sub 1 drop_prob
      in float_mul schedule_ok beacon_ok)"

subsection \<open>The simulation \<open>run\<close>\<close>

text \<open>
  The dataclass \<open>Result\<close>. The field \<open>max_frame_us\<close> is annotated \<open>float\<close> in the
  source but is always given the integer \<open>frame_max\<close>.
\<close>

record Result =
  total_sensors :: int
  node_count :: int
  schedule_ok_rate :: double
  avg_frame_us :: double
  max_frame_us :: int
  est_success_rate :: double

text \<open>
  The innermost loop \<open>for _ in range(RANDOM_DISTRIBUTIONS)\<close> with its three
  accumulators \<open>ok_count\<close>, \<open>frame_sum\<close> and \<open>frame_max\<close>; the first argument counts
  the iterations that remain. An exception raised by \<open>random_partition\<close> ends the
  loop, and so does a call of it that does not return.
\<close>

fun trials :: "nat \<Rightarrow> int \<Rightarrow> int \<Rightarrow> rng \<Rightarrow> int \<times> int \<times> int \<Rightarrow> (error + ((int \<times> int \<times> int) \<times> rng)) option" where
  "trials 0 tot nodes g acc = Some (Inr (acc, g))"
| "trials (Suc n) tot nodes g (ok_count, frame_sum, frame_max) =
     (case random_partition g tot nodes of
        None \<Rightarrow> None
      | Some (Inl e) \<Rightarrow> Some (Inl e)
      | Some (Inr (counts, g')) \<Rightarrow>
          (let frame_us = calculate_frame_time counts;
               frame_sum = frame_sum + frame_us;
               frame_max = max frame_max frame_us;
               ok_count = (if frame_us \<le> TDMA_FRAME_PERIOD_US then ok_count + 1 else ok_count)
           in trials n tot nodes g' (ok_count, frame_sum, frame_max)))"

text \<open>
  \<open>run_pair\<close> is the body of the two outer loops for one pair \<open>(total, nodes)\<close>: the
  trials with fresh accumulators, the two true divisions, the estimate, and the
  \<open>Result\<close> that is appended.
\<close>

definition run_pair :: "rng \<Rightarrow> int \<Rightarrow> int \<Rightarrow> (error + (Result \<times> rng)) option" where
  "run_pair g tot nodes =
     (case trials (nat RANDOM_DISTRIBUTIONS) tot nodes g (0, 0, 0) of
        None \<Rightarrow> None
      | Some (Inl e) \<Rightarrow> Some (Inl e)
      | Some (Inr ((ok_count, frame_sum, frame_max), g')) \<Rightarrow>
          (case int_truediv ok_count RANDOM_DISTRIBUTIONS of
             Inl e \<Rightarrow> Some (Inl e)
           | Inr schedule_ok \<Rightarrow>
               (case int_truediv frame_sum RANDOM_DISTRIBUTIONS of
                  Inl e \<Rightarrow> Some (Inl e)
                | Inr avg_frame \<Rightarrow>
                    (let est_success = estimated_success_rate schedule_ok
                     in Some (Inr (\<lparr>total_sensors = tot, node_count = nodes,
                               schedule_ok_rate = schedule_ok, avg_frame_us = avg_frame,
                               max_frame_us = frame_max, est_success_rate = est_success\<rparr>,
                             g'))))))"

text \<open>
  \<open>for nodes in range(1, min(MAX_NODES, total) + 1)\<close> is \<open>nodes_loop\<close> over
  \<open>[1..min MAX_NODES total]\<close>, and \<open>for total in range(1, MAX_TOTAL_SENSORS + 1)\<close> is
  \<open>totals_loop\<close> over \<open>[1..MAX_TOTAL_SENSORS]\<close>. \<open>run\<close> returns the list \<open>results\<close>
  and the generator state; the printing of the report after the loops is not modelled.
\<close>

fun nodes_loop :: "int list \<Rightarrow> int \<Rightarrow> rng \<Rightarrow> Result list \<Rightarrow> (error + (Result list \<times> rng)) option" where
  "nodes_loop [] tot g results = Some (Inr (results, g))"
| "nodes_loop (nodes # rest) tot g results =
     (case run_pair g tot nodes of
        None \<Rightarrow> None
      | Some (Inl e) \<Rightarrow> Some (Inl e)
      | Some (Inr (r, g')) \<Rightarrow> nodes_loop rest tot g' (results @ [r]))"

fun totals_loop :: "int list \<Rightarrow> rng \<Rightarrow> Result list \<Rightarrow> (error + (Result list \<times> rng)) option" where
  "totals_loop [] g results = Some (Inr (results, g))"
| "totals_loop (tot # rest) g results =
     (case nodes_loop [1..min MAX_NODES tot] tot g results of
        None \<Rightarrow> None
      | Some (Inl e) \<Rightarrow> Some (Inl e)
      | Some (Inr (results', g')) \<Rightarrow> totals_loop rest g' results')"

definition run :: "rng \<Rightarrow> (error + (Result list \<times> rng)) option" where
  "run g = totals_loop [1..MAX_TOTAL_SENSORS] g []"

subsection \<open>Vocabulary for statements about \<open>run\<close>\<close>

text \<open>
  The pair a result row stands for; the pairs in the order in which the two loop headers
  enumerate them; and the property of a row of being what \<open>run_pair\<close> returns
  for the row's own pair from some generator state.
\<close>

definition pair_of :: "Result \<Rightarrow> int \<times> int" where
  "pair_of r = (total_sensors r, node_count r)"

definition run_pairs :: "int list \<Rightarrow> (int \<times> int) list" where
  "run_pairs ts = concat (map (\<lambda>t. map (Pair t) [1..min MAX_NODES t]) ts)"

definition from_run_pair :: "Result \<Rightarrow> bool" where
  "from_run_pair r =
     (\<exists>g1 g2. run_pair g1 (total_sensors r) (node_count r) = Some (Inr (r, g2)))"

section \<open>Properties of the slot-timing model\<close>

lemmas tdma_consts =
  TDMA_FRAME_PERIOD_MS_def TDMA_FRAME_PERIOD_US_def TDMA_BEACON_DURATION_US_def
  TDMA_FIRST_SLOT_GAP_US_def TDMA_GUARD_TIME_US_def TDMA_SLOT_MIN_WIDTH_US_def
  TDMA_SENSOR_DATA_SIZE_def TDMA_DATA_HEADER_SIZE_def TDMA_SAMPLES_PER_FRAME_def
  FIXED_OVERHEAD_US_def INTER_SLOT_GAP_US_def OFDM_PREAMBLE_US_def OFDM_N_DBPS_def
  OFDM_SYMBOL_US_def OFDM_SIFS_US_def OFDM_ACK_US_def FRAME_OVERHEAD_BYTES_def

lemma slot_width_positive_eq:
  "0 < n \<Longrightarrow>
   calculate_slot_width n = min 65535 (max 2500 (1574 + 4 * ((800 * n + 421) div 24)))"
  by (simp add: calculate_slot_width_def tdma_consts Let_def min_def max_def add.commute)

lemma slot_width_nonpositive: "n \<le> 0 \<Longrightarrow> calculate_slot_width n = 0"
  by (simp add: calculate_slot_width_def)

lemma slot_width_nonneg: "0 \<le> calculate_slot_width n"
proof (cases "0 < n")
  case True
  then show ?thesis by (simp add: slot_width_positive_eq)
next
  case False
  then show ?thesis by (simp add: slot_width_nonpositive)
qed

lemma slot_width_mono:
  assumes "m \<le> n"
  shows "calculate_slot_width m \<le> calculate_slot_width n"
proof (cases "0 < m")
  case True
  with assms have n: "0 < n" by simp
  have "(800 * m + 421) div 24 \<le> (800 * n + 421) div 24"
    using assms by (intro zdiv_mono1) simp_all
  then show ?thesis
    using True n by (simp add: slot_width_positive_eq)
next
  case False
  then show ?thesis
    using slot_width_nonneg [of n] by (simp add: slot_width_nonpositive)
qed

text \<open>
  C8. A node with zero sensors is given a slot of exactly 0 microseconds:
  \<open>calculate_slot_width(0) == 0\<close>.
\<close>

theorem slot_width_zero: "calculate_slot_width 0 = 0"
  by (simp add: calculate_slot_width_def)

text \<open>
  C9. The guard of the first branch is \<open>sensor_count <= 0\<close>, so every negative
  sensor count returns 0 as well.
\<close>

theorem slot_width_negative: "n < 0 \<Longrightarrow> calculate_slot_width n = 0"
  by (simp add: calculate_slot_width_def)

theorem slot_width_negative_witness: "(-3::int) < 0 \<and> calculate_slot_width (-3) = 0"
  using slot_width_negative [of "-3"] by simp

text \<open>
  C2 (as amended). The result never exceeds 65535 for any integer, and it never falls
  below \<open>TDMA_SLOT_MIN_WIDTH_US\<close> = 2500 for any sensor count of at least 1. The
  floor does not hold for a non-positive count, which returns 0 before the clamps.
\<close>

theorem slot_width_range:
  "calculate_slot_width n \<le> 65535 \<and>
   (1 \<le> n \<longrightarrow> TDMA_SLOT_MIN_WIDTH_US \<le> calculate_slot_width n \<and>
               TDMA_SLOT_MIN_WIDTH_US = 2500)"
proof (cases "0 < n")
  case True
  then show ?thesis
    by (simp add: slot_width_positive_eq TDMA_SLOT_MIN_WIDTH_US_def)
next
  case False
  then show ?thesis by (simp add: slot_width_nonpositive)
qed

theorem slot_width_range_witness:
  "calculate_slot_width 6 \<le> 65535 \<and> (1::int) \<le> 6 \<and>
   TDMA_SLOT_MIN_WIDTH_US \<le> calculate_slot_width 6 \<and> calculate_slot_width 6 = 2500"
  using slot_width_range [of 6]
  by (simp add: slot_width_positive_eq TDMA_SLOT_MIN_WIDTH_US_def)

text \<open>
  C2 as stated fails: at sensor count 0 the result is 0, below the minimum slot width.
\<close>

theorem slot_width_floor_counterexample:
  "\<not> (calculate_slot_width 0 \<le> 65535 \<and> TDMA_SLOT_MIN_WIDTH_US \<le> calculate_slot_width 0)"
  by (simp add: calculate_slot_width_def TDMA_SLOT_MIN_WIDTH_US_def)

text \<open>
  C4. The frame time of the empty sequence is the beacon duration, 500; the frame time
  of a non-empty sequence is beacon duration + first-slot gap + the sum of the slot
  widths + one inter-slot gap for each node after the first + guard time. The equation
  holds for every non-empty list of integers, the non-negative ones among them.
\<close>

theorem frame_time_formula:
  "calculate_frame_time [] = TDMA_BEACON_DURATION_US \<and> TDMA_BEACON_DURATION_US = 500 \<and>
   (sensor_counts \<noteq> [] \<longrightarrow>
      calculate_frame_time sensor_counts =
        TDMA_BEACON_DURATION_US + TDMA_FIRST_SLOT_GAP_US
        + (\<Sum>s\<leftarrow>sensor_counts. calculate_slot_width s)
        + (int (length sensor_counts) - 1) * INTER_SLOT_GAP_US
        + TDMA_GUARD_TIME_US)"
  by (simp add: calculate_frame_time_def TDMA_BEACON_DURATION_US_def)

theorem frame_time_formula_witness:
  "[6, 0, 3] \<noteq> ([]::int list) \<and>
   calculate_frame_time [6, 0, 3] =
     TDMA_BEACON_DURATION_US + TDMA_FIRST_SLOT_GAP_US
     + (\<Sum>s\<leftarrow>[6, 0, 3]. calculate_slot_width s)
     + (int (length [6, 0, 3::int]) - 1) * INTER_SLOT_GAP_US
     + TDMA_GUARD_TIME_US \<and>
   calculate_frame_time [6, 0, 3] = 8200"
  using frame_time_formula [of "[6, 0, 3]"]
  by (simp add: calculate_slot_width_def tdma_consts)

lemma sum_slot_width_update:
  assumes "i < length xs" and "xs ! i \<le> v"
  shows "(\<Sum>s\<leftarrow>xs. calculate_slot_width s) \<le> (\<Sum>s\<leftarrow>xs[i := v]. calculate_slot_width s)"
  using assms
proof (induction xs arbitrary: i)
  case Nil
  then show ?case by simp
next
  case (Cons x xs)
  show ?case
  proof (cases i)
    case 0
    with Cons.prems show ?thesis by (simp add: slot_width_mono)
  next
    case (Suc j)
    with Cons.prems Cons.IH [of j] show ?thesis by simp
  qed
qed

text \<open>
  C5. The frame time never decreases when one element of the sequence is replaced by
  a larger one, nor when a node with any sensor count is appended. Both hold for every
  list of integers, so for the non-negative ones.
\<close>

theorem frame_time_monotone:
  "(i < length xs \<and> xs ! i \<le> v \<longrightarrow>
      calculate_frame_time xs \<le> calculate_frame_time (xs[i := v])) \<and>
   calculate_frame_time xs \<le> calculate_frame_time (xs @ [c])"
proof
  show "i < length xs \<and> xs ! i \<le> v \<longrightarrow>
          calculate_frame_time xs \<le> calculate_frame_time (xs[i := v])"
  proof
    assume h: "i < length xs \<and> xs ! i \<le> v"
    then have ne: "xs \<noteq> []" by auto
    from h sum_slot_width_update [of i xs v] ne show
      "calculate_frame_time xs \<le> calculate_frame_time (xs[i := v])"
      by (simp add: calculate_frame_time_def)
  qed
next
  show "calculate_frame_time xs \<le> calculate_frame_time (xs @ [c])"
  proof (cases "xs = []")
    case True
    then show ?thesis
      using slot_width_nonneg [of c] by (simp add: calculate_frame_time_def tdma_consts)
  next
    case False
    then show ?thesis
      using slot_width_nonneg [of c] by (simp add: calculate_frame_time_def tdma_consts)
  qed
qed

theorem frame_time_monotone_witness:
  "(1 < length [3, 0, 5::int] \<and> [3, 0, 5::int] ! 1 \<le> 4) \<and>
   calculate_frame_time [3, 0, 5] \<le> calculate_frame_time ([3, 0, 5][1 := 4]) \<and>
   calculate_frame_time [3, 0, 5] \<le> calculate_frame_time ([3, 0, 5] @ [0]) \<and>
   calculate_frame_time [3, 0, 5] = 8200 \<and>
   calculate_frame_time ([3, 0, 5][1 := 4]) = 10700 \<and>
   calculate_frame_time ([3, 0, 5] @ [0]) = 8300"
  using frame_time_monotone [of 1 "[3, 0, 5]" 4 0]
  by (simp add: calculate_frame_time_def calculate_slot_width_def tdma_consts)

section \<open>Properties of the sampler and of the random partition\<close>

subsection \<open>Selection from a pool\<close>

lemma pool_vacate:
  assumes "distinct pool" and "j < length pool"
  shows "distinct (butlast (pool[j := last pool])) \<and>
         set (butlast (pool[j := last pool])) = set pool - {pool ! j}"
proof (cases pool rule: rev_cases)
  case Nil
  with assms show ?thesis by simp
next
  case (snoc ys l)
  show ?thesis
  proof (cases "j = length ys")
    case True
    with snoc assms show ?thesis by auto
  next
    case False
    with snoc assms have j: "j < length ys" by simp
    have d: "distinct ys" "l \<notin> set ys" using snoc assms by auto
    have "pool[j := last pool] = ys[j := l] @ [l]"
      using snoc j by (simp add: list_update_append)
    then have b: "butlast (pool[j := last pool]) = ys[j := l]" by simp
    have "distinct (ys[j := l])"
      using d by (simp add: distinct_list_update)
    moreover have "set (ys[j := l]) = insert l (set ys - {ys ! j})"
      using d j by (simp add: set_update_distinct)
    moreover have "pool ! j = ys ! j" using snoc j by (simp add: nth_append)
    moreover have "ys ! j \<noteq> l" using d j by (metis nth_mem)
    ultimately show ?thesis using b snoc d by auto
  qed
qed

lemma fst_sample_pool_Suc:
  "fst (sample_pool g pool (Suc k)) =
     pool ! (shd g mod length pool)
     # fst (sample_pool (stl g) (butlast (pool[shd g mod length pool := last pool])) k)"
  by (simp add: randbelow_def Let_def split: prod.splits)

lemma sample_pool_length: "length (fst (sample_pool g pool k)) = k"
  by (induction k arbitrary: g pool) (simp_all add: fst_sample_pool_Suc del: sample_pool.simps(2))

lemma sample_pool_distinct_subset:
  assumes "k \<le> length pool" and "distinct pool"
  shows "distinct (fst (sample_pool g pool k)) \<and> set (fst (sample_pool g pool k)) \<subseteq> set pool"
  using assms
proof (induction k arbitrary: g pool)
  case 0
  then show ?case by simp
next
  case (Suc k)
  let ?j = "shd g mod length pool"
  let ?pool' = "butlast (pool[?j := last pool])"
  from Suc.prems(1) have pos: "0 < length pool" by linarith
  then have j: "?j < length pool" by simp
  from pool_vacate [OF Suc.prems(2) j]
  have v: "distinct ?pool'" "set ?pool' = set pool - {pool ! ?j}" by simp_all
  have "k \<le> length ?pool'" using Suc.prems(1) by simp
  from Suc.IH [OF this v(1), of "stl g"]
  have ih: "distinct (fst (sample_pool (stl g) ?pool' k))"
           "set (fst (sample_pool (stl g) ?pool' k)) \<subseteq> set pool - {pool ! ?j}"
    using v(2) by simp_all
  have "pool ! ?j \<in> set pool" using j by simp
  with ih show ?case
    by (auto simp: fst_sample_pool_Suc simp del: sample_pool.simps(2))
qed

lemma sample_pool_complete:
  assumes "distinct pool" and "distinct ys" and "set ys \<subseteq> set pool"
  shows "\<exists>g. fst (sample_pool g pool (length ys)) = ys"
  using assms
proof (induction ys arbitrary: pool)
  case Nil
  then show ?case by simp
next
  case (Cons y ys)
  from Cons.prems(3) obtain j where j: "j < length pool" "pool ! j = y"
    by (auto simp: in_set_conv_nth)
  let ?pool' = "butlast (pool[j := last pool])"
  from pool_vacate [OF Cons.prems(1) j(1)] j(2)
  have v: "distinct ?pool'" "set ?pool' = set pool - {y}" by simp_all
  have "set ys \<subseteq> set ?pool'" using Cons.prems(2,3) v(2) by auto
  from Cons.IH [OF v(1) _ this] Cons.prems(2)
  obtain g where g: "fst (sample_pool g ?pool' (length ys)) = ys" by auto
  have m: "shd (j ## g) mod length pool = j" "stl (j ## g) = g"
    using j(1) by simp_all
  have "fst (sample_pool (j ## g) pool (length (y # ys))) = y # ys"
    by (simp only: length_Cons fst_sample_pool_Suc m j(2) g)
  then show ?case by blast
qed

lemma sample_pool_numeral:
  "sample_pool g pool (numeral v) =
     (let (j, g1) = randbelow (length pool) g;
          x = pool ! j;
          pool' = butlast (pool[j := last pool]);
          (rest, g2) = sample_pool g1 pool' (pred_numeral v)
      in (x # rest, g2))"
  by (simp add: numeral_eq_Suc)

subsection \<open>The size bound\<close>


lemma ceil_log4_least: "1 < m \<Longrightarrow> 4 ^ (ceil_log4 m - 1) < m"
proof (induction m rule: ceil_log4.induct)
  case (1 m)
  let ?q = "(m + 3) div 4"
  have c: "ceil_log4 m = Suc (ceil_log4 ?q)" using "1.prems" by (subst ceil_log4.simps) simp
  show ?case
  proof (cases "1 < ?q")
    case True
    from "1.IH" [OF _ True] "1.prems" have ih: "4 ^ (ceil_log4 ?q - 1) < ?q" by simp
    have "0 < ceil_log4 ?q" using True by (subst ceil_log4.simps) simp
    then have "(4::int) ^ ceil_log4 ?q = 4 * 4 ^ (ceil_log4 ?q - 1)"
      by (cases "ceil_log4 ?q") simp_all
    moreover have "4 * (?q - 1) < m" by presburger
    ultimately show ?thesis using ih c by simp
  next
    case False
    then have "ceil_log4 ?q = 0" by (subst ceil_log4.simps) simp
    then show ?thesis using c "1.prems" by simp
  qed
qed

lemma setsize_ge_21: "21 \<le> setsize k"
  by (simp add: setsize_def)


subsection \<open>Redrawing and selection with a set\<close>

text \<open>
  A redraw that returns has skipped finitely many draws and returns the first index
  that is not selected; it returns as soon as the stream holds such a draw, and it
  never returns on a stream without one.
\<close>

lemma redraw_Some:
  assumes "redraw n selected g = Some r"
  shows "fst r \<notin> selected \<and> (\<exists>i. fst r = g !! i mod n \<and> snd r = sdrop (Suc i) g)"
proof (rule redraw.raw_induct
    [where P = "\<lambda>n selected g r.
       fst r \<notin> selected \<and> (\<exists>i. fst r = g !! i mod n \<and> snd r = sdrop (Suc i) g)",
     OF _ assms], goal_cases)
  case (1 rd n selected g r)
  show ?case
  proof (cases "shd g mod n \<in> selected")
    case True
    with 1(2) have "rd n selected (stl g) = Some r" by (simp add: randbelow_def)
    from 1(1) [OF this] obtain i where
      "fst r \<notin> selected" "fst r = stl g !! i mod n" "snd r = sdrop (Suc i) (stl g)"
      by blast
    then have "fst r \<notin> selected \<and> fst r = g !! Suc i mod n \<and> snd r = sdrop (Suc (Suc i)) g"
      by simp
    then show ?thesis by blast
  next
    case False
    with 1(2) have "fst r = g !! 0 mod n" "snd r = sdrop (Suc 0) g"
      by (auto simp: randbelow_def)
    moreover from this False have "fst r \<notin> selected" by simp
    ultimately show ?thesis by blast
  qed
qed

lemma redraw_returns:
  "g !! i mod n \<notin> selected \<Longrightarrow> \<exists>j g'. redraw n selected g = Some (j, g')"
proof (induction i arbitrary: g)
  case 0
  then show ?case by (subst redraw.simps) (simp add: randbelow_def)
next
  case (Suc i)
  then have "stl g !! i mod n \<notin> selected" by simp
  from Suc.IH [OF this] show ?case
    by (subst redraw.simps) (auto simp: randbelow_def)
qed

lemma fair_sdrop: "fair n g \<Longrightarrow> fair n (sdrop m g)"
  unfolding fair_def
proof (intro allI impI)
  fix j i
  assume f: "\<forall>j<n. \<forall>i. \<exists>i'\<ge>i. g !! i' mod n = j" and j: "j < n"
  then obtain i' where "i' \<ge> m + i" "g !! i' mod n = j" by blast
  then have "i' - m \<ge> i \<and> sdrop m g !! (i' - m) mod n = j" by (simp add: sdrop_snth)
  then show "\<exists>i'\<ge>i. sdrop m g !! i' mod n = j" by blast
qed



lemma redraw_diverges:
  assumes "\<forall>i. g !! i mod n \<in> selected"
  shows "redraw n selected g = None"
proof (cases "redraw n selected g")
  case None
  then show ?thesis .
next
  case (Some r)
  from redraw_Some [OF Some] assms show ?thesis by auto
qed

lemma sample_set_partial:
  assumes "sample_set g population selected k = Some (s, g')"
    and "distinct population" and "population \<noteq> []"
    and "selected \<subseteq> {..<length population}"
  shows "length s = k \<and> distinct s \<and> set s \<subseteq> set population \<and>
         set s \<inter> (\<lambda>j. population ! j) ` selected = {}"
  using assms(1,4)
proof (induction k arbitrary: g selected s)
  case 0
  then show ?case by simp
next
  case (Suc k)
  let ?n = "length population"
  from Suc.prems(1) obtain j g1 rest where
    r: "redraw ?n selected g = Some (j, g1)"
    and t: "sample_set g1 population (insert j selected) k = Some (rest, g')"
    and s: "s = population ! j # rest"
    by (auto split: option.splits)
  from redraw_Some [OF r] obtain i where j: "j \<notin> selected" "j = g !! i mod ?n" by auto
  have jn: "j < ?n" using j(2) assms(3) by simp
  then have sub: "insert j selected \<subseteq> {..<?n}" using Suc.prems(2) by simp
  from Suc.IH [OF t sub]
  have ih: "length rest = k" "distinct rest" "set rest \<subseteq> set population"
    "set rest \<inter> (\<lambda>j. population ! j) ` insert j selected = {}"
    by simp_all
  have fresh: "population ! j \<notin> set rest" using ih(4) by auto
  have "population ! j \<notin> (\<lambda>j. population ! j) ` selected"
  proof
    assume "population ! j \<in> (\<lambda>j. population ! j) ` selected"
    then obtain j' where j': "j' \<in> selected" "population ! j = population ! j'" by auto
    then have "j' < ?n" using Suc.prems(2) by auto
    with j'(2) jn assms(2) have "j = j'" by (simp add: nth_eq_iff_index_eq)
    with j'(1) j(1) show False by simp
  qed
  moreover have "set rest \<inter> (\<lambda>j. population ! j) ` selected = {}" using ih(4) by auto
  ultimately show ?case using s ih(1,2,3) fresh jn by auto
qed

lemma sample_set_returns:
  assumes "fair (length population) g" and "selected \<subseteq> {..<length population}"
    and "card selected + k \<le> length population"
  shows "\<exists>s g'. sample_set g population selected k = Some (s, g')"
  using assms
proof (induction k arbitrary: g selected)
  case 0
  then show ?case by simp
next
  case (Suc k)
  let ?n = "length population"
  have fin: "finite selected" using Suc.prems(2) by (rule finite_subset) simp
  have "card selected < card {..<?n}" using Suc.prems(3) by simp
  then have "\<not> {..<?n} \<subseteq> selected" using fin by (metis card_mono not_less)
  then obtain j0 where j0: "j0 < ?n" "j0 \<notin> selected" by auto
  with Suc.prems(1) obtain i where "g !! i mod ?n = j0" unfolding fair_def by blast
  with j0(2) have "g !! i mod ?n \<notin> selected" by simp
  from redraw_returns [OF this] obtain j g1 where r: "redraw ?n selected g = Some (j, g1)" by blast
  from redraw_Some [OF r] obtain i' where
    j: "j \<notin> selected" "j = g !! i' mod ?n" "g1 = sdrop (Suc i') g"
    by auto
  have "0 < ?n" using j0(1) by linarith
  then have jn: "j < ?n" using j(2) by simp
  have f1: "fair ?n g1" using Suc.prems(1) j(3) by (simp add: fair_sdrop del: sdrop.simps)
  have sub: "insert j selected \<subseteq> {..<?n}" using jn Suc.prems(2) by simp
  have "card (insert j selected) + k \<le> ?n" using j(1) fin Suc.prems(3) by simp
  from Suc.IH [OF f1 sub this] obtain rest g' where
    "sample_set g1 population (insert j selected) k = Some (rest, g')"
    by blast
  with r show ?case by simp
qed

subsection \<open>The contract of \<open>sample\<close>\<close>


lemma sample_partial:
  assumes "sample g population k = Some (Inr (s, g'))" and "distinct population"
  shows "int (length s) = k \<and> distinct s \<and> set s \<subseteq> set population"
proof -
  let ?n = "int (length population)"
  from assms(1) have k: "0 \<le> k" "k \<le> ?n"
    by (auto simp: sample_def Let_def split: if_splits)
  show ?thesis
  proof (cases "?n \<le> setsize k")
    case True
    with assms(1) k have sp: "sample_pool g population (nat k) = (s, g')"
      by (simp add: sample_def Let_def)
    have "nat k \<le> length population" using k by simp
    from sample_pool_distinct_subset [OF this assms(2), of g]
      sample_pool_length [of g population "nat k"]
    show ?thesis using sp k by simp
  next
    case False
    with assms(1) k have ss: "sample_set g population {} (nat k) = Some (s, g')"
      by (auto simp: sample_def Let_def)
    have "21 < ?n" using False setsize_ge_21 [of k] by linarith
    then have ne: "population \<noteq> []" by auto
    from sample_set_partial [OF ss assms(2) ne] show ?thesis using k by simp
  qed
qed

lemma sample_returns:
  assumes "0 \<le> k" and "k \<le> int (length population)"
    and "int (length population) \<le> setsize k \<or> fair (length population) g"
  shows "\<exists>s g'. sample g population k = Some (Inr (s, g'))"
proof (cases "int (length population) \<le> setsize k")
  case True
  then show ?thesis
    using assms(1,2) by (cases "sample_pool g population (nat k)") (simp add: sample_def Let_def)
next
  case False
  with assms(3) have f: "fair (length population) g" by simp
  have "card ({}::nat set) + nat k \<le> length population" using assms(1,2) by simp
  from sample_set_returns [OF f _ this] obtain s g' where
    "sample_set g population {} (nat k) = Some (s, g')"
    by auto
  then show ?thesis using False assms(1,2) by (simp add: sample_def Let_def)
qed

text \<open>
  The call of the library diverges on the stream that always draws 5, once 5 has been
  selected: a population of 22 with a sample of 2 takes the branch with the set.
\<close>

lemma sample_diverges: "sample (sconst 5) [1..22::int] 2 = None"
proof -
  have r1: "redraw 22 {} (sconst 5) = Some (5, sconst 5)"
    by (subst redraw.simps) (simp add: randbelow_def)
  have r2: "redraw 22 {5} (sconst 5) = None"
    by (rule redraw_diverges) simp
  have "sample_set (sconst 5) [1..22::int] {} (Suc (Suc 0)) = None"
    by (simp add: r1 r2)
  then show ?thesis
    by (simp add: sample_def setsize_def numeral_2_eq_2)
qed

subsection \<open>Random partitions\<close>

lemma partition_loop_props:
  assumes "sorted_wrt (<) (prev # cuts)"
  shows "\<exists>ds. partition_loop cuts counts prev = (counts @ ds, last (prev # cuts)) \<and>
              length ds = length cuts \<and> sum_list ds = last (prev # cuts) - prev \<and>
              (\<forall>d\<in>set ds. 1 \<le> d)"
  using assms
proof (induction cuts arbitrary: counts prev)
  case Nil
  then show ?case by simp
next
  case (Cons c cuts)
  from Cons.prems have lt: "prev < c" and srt: "sorted_wrt (<) (c # cuts)" by simp_all
  from Cons.IH [OF srt, of "counts @ [c - prev]"]
  obtain ds where ds: "partition_loop cuts (counts @ [c - prev]) c = ((counts @ [c - prev]) @ ds, last (c # cuts))"
    "length ds = length cuts" "sum_list ds = last (c # cuts) - c" "\<forall>d\<in>set ds. 1 \<le> d"
    by blast
  let ?ds = "(c - prev) # ds"
  have "partition_loop (c # cuts) counts prev = (counts @ ?ds, last (prev # c # cuts))"
    using ds(1) by simp
  moreover have "length ?ds = length (c # cuts)" using ds(2) by simp
  moreover have "sum_list ?ds = last (prev # c # cuts) - prev" using ds(3) by simp
  moreover have "\<forall>d\<in>set ?ds. 1 \<le> d" using ds(4) lt by simp
  ultimately show ?case by blast
qed

lemma last_in_range:
  assumes "\<forall>c\<in>set cuts. 1 \<le> c \<and> c \<le> t - 1" and "1 \<le> (t::int)"
  shows "last (0 # cuts) \<le> t - 1"
proof (cases "cuts = []")
  case True
  with assms show ?thesis by simp
next
  case False
  then have "last cuts \<in> set cuts" by simp
  with assms False show ?thesis by simp
qed

lemma elem_le_sum_list:
  fixes cs :: "int list"
  assumes "\<forall>c\<in>set cs. 0 \<le> c" and "x \<in> set cs"
  shows "x \<le> sum_list cs"
  using assms
proof (induction cs)
  case Nil
  then show ?case by simp
next
  case (Cons c cs)
  have "0 \<le> sum_list cs" using Cons.prems(1) by (simp add: sum_list_nonneg)
  with Cons show ?case by auto
qed


lemma random_partition_partial:
  assumes "1 \<le> tot"
    and "random_partition g tot parts = Some (Inr (counts, g'))"
  shows "int (length counts) = parts \<and> sum_list counts = tot \<and>
         (\<forall>c\<in>set counts. 1 \<le> c \<and> c \<le> tot)"
proof -
  from assms(2) obtain s where s0: "sample g [1..tot - 1] (parts - 1) = Some (Inr (s, g'))"
    and c0: "counts = fst (partition_loop (sort s) [] 0) @ [tot - snd (partition_loop (sort s) [] 0)]"
    by (auto simp: random_partition_def Let_def split: option.splits sum.splits prod.splits)
  from sample_partial [OF s0] have s: "int (length s) = parts - 1" "distinct s" "set s \<subseteq> {1..tot - 1}"
    by simp_all
  let ?cuts = "sort s"
  have rng: "\<forall>c\<in>set ?cuts. 1 \<le> c \<and> c \<le> tot - 1" using s(3) by auto
  have "sorted_wrt (<) ?cuts" using s(2) by (simp add: strict_sorted_iff)
  with rng have "sorted_wrt (<) (0 # ?cuts)" by auto
  from partition_loop_props [OF this, of "[]"]
  obtain ds where ds: "partition_loop ?cuts [] 0 = (ds, last (0 # ?cuts))"
    "length ds = length ?cuts" "sum_list ds = last (0 # ?cuts)" "\<forall>d\<in>set ds. 1 \<le> d"
    by auto
  let ?counts = "ds @ [tot - last (0 # ?cuts)]"
  have c: "counts = ?counts" using c0 ds(1) by simp
  have l: "int (length ?counts) = parts" using ds(2) s(1) by simp
  have sm: "sum_list ?counts = tot" using ds(3) by simp
  have "last (0 # ?cuts) \<le> tot - 1" using last_in_range [OF rng assms(1)] .
  then have pos: "\<forall>c\<in>set ?counts. 1 \<le> c" using ds(4) by auto
  then have "\<forall>c\<in>set ?counts. 0 \<le> c" by force
  then have "\<forall>c\<in>set ?counts. c \<le> tot"
    using elem_le_sum_list [of ?counts] sm by metis
  with c l sm pos show ?thesis by blast
qed

lemma random_partition_returns:
  assumes "1 \<le> tot" and "1 \<le> parts" and "parts \<le> tot"
    and "tot - 1 \<le> setsize (parts - 1) \<or> fair (nat (tot - 1)) g"
  shows "\<exists>counts g'. random_partition g tot parts = Some (Inr (counts, g'))"
proof -
  have len: "int (length [1..tot - 1]) = tot - 1" "length [1..tot - 1] = nat (tot - 1)"
    using assms(1) by simp_all
  from sample_returns [of "parts - 1" "[1..tot - 1]" g] assms len
  obtain s g' where "sample g [1..tot - 1] (parts - 1) = Some (Inr (s, g'))"
    by auto
  then show ?thesis
    by (cases "partition_loop (sort s) [] 0") (simp add: random_partition_def Let_def)
qed



text \<open>The selection from a pool on a concrete stream, for a total of 9 in 3 parts.\<close>

lemma random_partition_pool_example:
  "random_partition (siterate (\<lambda>n. 7 * n + 3) 5) 9 3
     = Some (Inr ([4, 2, 3], siterate (\<lambda>n. 7 * n + 3) 269))"
  by (simp add: random_partition_def sample_def setsize_def sample_pool_numeral randbelow_def
      upto.simps Let_def numeral_2_eq_2 [symmetric] numeral_3_eq_3 [symmetric])




section \<open>Properties of the floating-point estimate and of the simulation\<close>

subsection \<open>The rounding model\<close>

text \<open>
  \<open>float_exponent\<close> is the binary exponent of a positive number, and \<open>double_round\<close>
  returns a multiple of the unit in the last place that is at most half a unit away
  from its argument.
\<close>

lemma bit_length_bounds:
  "0 < n \<Longrightarrow> 1 \<le> bit_length n \<and> 2 ^ nat (bit_length n - 1) \<le> n \<and> n < 2 ^ nat (bit_length n)"
proof (induction n rule: bit_length.induct)
  case (1 n)
  show ?case
  proof (cases "n div 2 = 0")
    case True
    with "1.prems" have "n = 1" by presburger
    then show ?thesis by (simp add: bit_length.simps)
  next
    case False
    with "1.prems" have h: "0 < n div 2" by presburger
    let ?b = "bit_length (n div 2)"
    from "1.IH" [OF _ h] "1.prems"
    have ih: "1 \<le> ?b" "2 ^ nat (?b - 1) \<le> n div 2" "n div 2 < 2 ^ nat ?b" by simp_all
    have bl: "bit_length n = 1 + ?b" using "1.prems" by (subst bit_length.simps) simp
    have p: "(2::int) ^ nat ?b = 2 * 2 ^ nat (?b - 1)"
      using ih(1) by (metis Suc_nat_eq_nat_zadd1 diff_add_cancel diff_ge_0_iff_ge power_Suc add.commute)
    have q: "(2::int) ^ nat (1 + ?b) = 2 * 2 ^ nat ?b"
      using ih(1) by (simp add: nat_add_distrib)
    have "2 ^ nat ?b \<le> n" using ih(2) p by linarith
    moreover have "n < 2 ^ nat (1 + ?b)" using ih(3) q by linarith
    ultimately show ?thesis using bl ih(1) by simp
  qed
qed

lemma float_exponent_bounds:
  assumes "0 < x"
  shows "2 powi float_exponent x \<le> x \<and> x < 2 powi (float_exponent x + 1)"
proof (cases "1 \<le> x")
  case True
  let ?n = "\<lfloor>x\<rfloor>"
  have n: "0 < ?n" using True by simp
  from bit_length_bounds [OF n]
  have b: "1 \<le> bit_length ?n" "2 ^ nat (bit_length ?n - 1) \<le> ?n" "?n < 2 ^ nat (bit_length ?n)"
    by simp_all
  have e: "float_exponent x = bit_length ?n - 1" using True by (simp add: float_exponent_def)
  have "(2::rat) powi (bit_length ?n - 1) = of_int (2 ^ nat (bit_length ?n - 1))"
    using b(1) by (simp add: power_int_def)
  also have "\<dots> \<le> of_int ?n" using b(2) by (rule of_int_le_iff [THEN iffD2])
  also have "\<dots> \<le> x" by simp
  finally have lo: "2 powi float_exponent x \<le> x" using e by simp
  have "?n + 1 \<le> 2 ^ nat (bit_length ?n)" using b(3) by simp
  then have "(of_int (?n + 1) :: rat) \<le> of_int (2 ^ nat (bit_length ?n))"
    by (rule of_int_le_iff [THEN iffD2])
  moreover have "x < of_int (?n + 1)" by linarith
  moreover have "(2::rat) powi (bit_length ?n) = of_int (2 ^ nat (bit_length ?n))"
    using b(1) by (simp add: power_int_def)
  ultimately have "x < 2 powi (float_exponent x + 1)" using e by simp
  with lo show ?thesis by simp
next
  case False
  then have x1: "x < 1" by simp
  let ?y = "1 / x"
  let ?m = "\<lceil>?y\<rceil> - 1"
  have y1: "1 < ?y" using assms x1 by simp
  then have m: "0 < ?m" by linarith
  from bit_length_bounds [OF m]
  have b: "1 \<le> bit_length ?m" "2 ^ nat (bit_length ?m - 1) \<le> ?m" "?m < 2 ^ nat (bit_length ?m)"
    by simp_all
  have e: "float_exponent x = - bit_length ?m" using False by (simp add: float_exponent_def)
  have p1: "(2::rat) powi (- bit_length ?m) = 1 / of_int (2 ^ nat (bit_length ?m))"
    using b(1) by (simp add: power_int_def field_simps)
  have p2: "(2::rat) powi (- bit_length ?m + 1) = 1 / of_int (2 ^ nat (bit_length ?m - 1))"
  proof -
    have "(2::rat) powi (- bit_length ?m + 1) = inverse (2 powi (bit_length ?m - 1))"
      by (simp add: power_int_minus [symmetric])
    also have "(2::rat) powi (bit_length ?m - 1) = of_int (2 ^ nat (bit_length ?m - 1))"
      using b(1) by (simp add: power_int_def)
    finally show ?thesis by (simp add: field_simps)
  qed
  have "?m + 1 \<le> 2 ^ nat (bit_length ?m)" using b(3) by simp
  then have "(of_int (?m + 1) :: rat) \<le> of_int (2 ^ nat (bit_length ?m))"
    by (rule of_int_le_iff [THEN iffD2])
  moreover have "?y \<le> of_int (?m + 1)" by simp
  ultimately have "?y \<le> of_int (2 ^ nat (bit_length ?m))" by linarith
  then have lo: "1 / of_int (2 ^ nat (bit_length ?m)) \<le> x"
    using assms by (simp add: field_simps)
  have "(of_int (2 ^ nat (bit_length ?m - 1)) :: rat) \<le> of_int ?m"
    using b(2) by (rule of_int_le_iff [THEN iffD2])
  moreover have "of_int ?m < ?y" by linarith
  ultimately have "(of_int (2 ^ nat (bit_length ?m - 1)) :: rat) < ?y" by linarith
  then have hi: "x < 1 / of_int (2 ^ nat (bit_length ?m - 1))"
    using assms by (simp add: field_simps)
  show ?thesis using lo hi e p1 p2 by simp
qed

lemma round_half_even_nearest: "\<bar>of_int (round_half_even x) - x\<bar> \<le> 1 / 2"
proof -
  have "of_int \<lfloor>x\<rfloor> \<le> x" "x < of_int \<lfloor>x\<rfloor> + 1" by linarith+
  then show ?thesis
    by (auto simp: round_half_even_def Let_def)
qed

lemma round_half_even_unique:
  assumes "of_int m - 1 / 2 < y" and "y < of_int m + 1 / 2"
  shows "round_half_even y = m"
proof -
  have f: "\<lfloor>y\<rfloor> = m \<or> \<lfloor>y\<rfloor> = m - 1" using assms by linarith
  show ?thesis
  proof (cases "\<lfloor>y\<rfloor> = m")
    case True
    then show ?thesis using assms by (simp add: round_half_even_def Let_def)
  next
    case False
    with f have "\<lfloor>y\<rfloor> = m - 1" by simp
    then show ?thesis using assms by (simp add: round_half_even_def Let_def)
  qed
qed

lemma double_round_error:
  "\<bar>double_round x - x\<bar> \<le> 2 powi (max (float_exponent \<bar>x\<bar>) (- 1022) - 52) / 2"
proof (cases "x = 0")
  case True
  then show ?thesis by (simp add: double_round_def)
next
  case False
  let ?u = "(2::rat) powi (max (float_exponent \<bar>x\<bar>) (- 1022) - 52)"
  let ?k = "round_half_even (\<bar>x\<bar> / ?u)"
  have u: "0 < ?u" by simp
  have dr: "double_round x = sgn x * of_int ?k * ?u"
    using False by (simp add: double_round_def Let_def)
  have "double_round x - x = sgn x * ((of_int ?k - \<bar>x\<bar> / ?u) * ?u)"
    using u by (simp add: dr algebra_simps mult_sgn_abs abs_mult_sgn)
  then have "\<bar>double_round x - x\<bar> = \<bar>of_int ?k - \<bar>x\<bar> / ?u\<bar> * ?u"
    using False u by (simp add: abs_mult abs_sgn_eq del: abs_divide)
  also have "\<dots> \<le> 1 / 2 * ?u"
    using round_half_even_nearest [of "\<bar>x\<bar> / ?u"] u by (intro mult_right_mono) simp_all
  finally show ?thesis by simp
qed

subsection \<open>The estimate\<close>

lemma packet_loss_prob_value: "PACKET_LOSS_PROB = 3602879701896397 / 36028797018963968"
  unfolding PACKET_LOSS_PROB_def by code_simp

lemma drop_prob_value:
  "float_pow PACKET_LOSS_PROB (FREEWHEEL_FRAMES + 1) = 4611686018427389 / 4611686018427387904"
proof -
  have "double_round ((3602879701896397 / 36028797018963968) powi 3)
          = 4611686018427389 / 4611686018427387904"
    by code_simp
  then show ?thesis
    by (simp add: float_pow_def packet_loss_prob_value FREEWHEEL_FRAMES_def)
qed

lemma double_999: "double_round (999 / 1000) = 8998192055486251 / 9007199254740992"
  by code_simp

lemma beacon_ok_value:
  "float_sub 1 (float_pow PACKET_LOSS_PROB (FREEWHEEL_FRAMES + 1)) = double_round (999 / 1000)"
proof -
  have "double_round (1 - 4611686018427389 / 4611686018427387904)
          = 8998192055486251 / 9007199254740992"
    by code_simp
  then show ?thesis
    by (simp only: float_sub_def drop_prob_value double_999)
qed

text \<open>
  The factor \<open>beacon_ok\<close> does not depend on how the power is rounded: every number
  within \<open>2^-55\<close> of one thousandth, which is 128 units in the last place of a
  double of that size, gives the double written \<open>0.999\<close>.
\<close>

lemma beacon_ok_robust:
  assumes "\<bar>d - 1 / 1000\<bar> \<le> 1 / 2 ^ 55"
  shows "float_sub 1 d = 8998192055486251 / 9007199254740992"
proof -
  let ?x = "1 - d"
  from assms have "\<bar>d - 1 / 1000\<bar> \<le> 1 / 36028797018963968" by simp
  then have r: "999 / 1000 - 1 / 36028797018963968 \<le> ?x"
    "?x \<le> 999 / 1000 + 1 / 36028797018963968"
    by linarith+
  then have x: "1 / 2 < ?x" "?x < 1" by simp_all
  have y: "1 < 1 / ?x" "1 / ?x \<le> 2" using x by (simp_all add: field_simps)
  then have "\<lceil>1 / ?x\<rceil> = 2" by (simp add: ceiling_eq_iff)
  then have e: "float_exponent ?x = - 1"
    using x by (simp add: float_exponent_def bit_length.simps)
  have ab: "\<bar>?x\<bar> = ?x" "sgn ?x = 1" "?x \<noteq> 0" using x by simp_all
  have u: "(2::rat) powi (max (- 1) (- 1022) - 52) = 1 / 2 ^ 53" by simp
  have rr: "round_half_even (?x / (1 / 2 ^ 53)) = 8998192055486251"
    using r by (intro round_half_even_unique) simp_all
  have "double_round ?x = sgn ?x * of_int (round_half_even (\<bar>?x\<bar> / (1 / 2 ^ 53))) * (1 / 2 ^ 53)"
    unfolding double_round_def Let_def ab(1) e u using ab(3) by (simp only: if_False)
  also have "\<dots> = 8998192055486251 / 9007199254740992"
    unfolding ab rr by simp
  finally show ?thesis by (simp only: float_sub_def)
qed

lemma double_round_1: "double_round 1 = 1"
  by code_simp

lemma double_round_6774: "double_round 6774 = 6774"
  by code_simp

lemma double_round_idem_999:
  "double_round (8998192055486251 / 9007199254740992) = 8998192055486251 / 9007199254740992"
  by code_simp

lemma esr_1: "estimated_success_rate 1 = double_round (999 / 1000)"
  by (simp add: estimated_success_rate_def beacon_ok_value float_mul_def double_999
      double_round_idem_999)

subsection \<open>The simulation\<close>

lemma frame_time_16: "calculate_frame_time [16] = 6774"
  by (simp add: calculate_frame_time_def calculate_slot_width_def tdma_consts)

lemma random_partition_single: "random_partition g tot 1 = Some (Inr ([tot], g))"
  by (simp add: random_partition_def sample_def Let_def)

lemma trials_single:
  "trials n tot 1 g (ok_count, frame_sum, frame_max) =
     Some (Inr ((ok_count + int n * (if calculate_frame_time [tot] \<le> TDMA_FRAME_PERIOD_US then 1 else 0),
           frame_sum + int n * calculate_frame_time [tot],
           (if n = 0 then frame_max else max frame_max (calculate_frame_time [tot]))), g))"
proof (induction n arbitrary: ok_count frame_sum frame_max)
  case 0
  then show ?case by simp
next
  case (Suc n)
  show ?case
    by (simp add: random_partition_single Suc.IH Let_def algebra_simps)
qed

lemma run_pair_16_1:
  "run_pair g 16 1 =
     Some (Inr (\<lparr>total_sensors = 16, node_count = 1, schedule_ok_rate = 1, avg_frame_us = 6774,
           max_frame_us = 6774, est_success_rate = double_round (999 / 1000)\<rparr>, g))"
proof -
  have t: "trials (nat RANDOM_DISTRIBUTIONS) 16 1 g (0, 0, 0) = Some (Inr ((1000, 6774000, 6774), g))"
    by (simp add: trials_single frame_time_16 RANDOM_DISTRIBUTIONS_def tdma_consts)
  have d1: "int_truediv 1000 RANDOM_DISTRIBUTIONS = Inr 1"
    by (simp add: int_truediv_def RANDOM_DISTRIBUTIONS_def double_round_1)
  have d2: "int_truediv 6774000 RANDOM_DISTRIBUTIONS = Inr 6774"
    by (simp add: int_truediv_def RANDOM_DISTRIBUTIONS_def double_round_6774)
  show ?thesis
    by (simp add: run_pair_def t d1 d2 esr_1)
qed

lemma sum_slot_width_bounds:
  "0 \<le> (\<Sum>s\<leftarrow>xs. calculate_slot_width s) \<and>
   (\<Sum>s\<leftarrow>xs. calculate_slot_width s) \<le> 65535 * int (length xs)"
proof (induction xs)
  case Nil
  then show ?case by simp
next
  case (Cons x xs)
  have "0 \<le> calculate_slot_width x" by (rule slot_width_nonneg)
  moreover have "calculate_slot_width x \<le> 65535"
    by (cases "0 < x") (simp_all add: slot_width_positive_eq slot_width_nonpositive)
  ultimately show ?case using Cons.IH by simp
qed

lemma frame_time_bounds:
  "0 \<le> calculate_frame_time xs \<and> calculate_frame_time xs \<le> 3000 + 65635 * int (length xs)"
  using sum_slot_width_bounds [of xs]
  by (cases "xs = []") (simp_all add: calculate_frame_time_def tdma_consts)

lemma trials_returns:
  assumes "1 \<le> tot" and "1 \<le> nodes" and "nodes \<le> tot" and "tot \<le> MAX_TOTAL_SENSORS"
    and "0 \<le> ok_count" and "0 \<le> frame_sum"
  shows "\<exists>ok' sum' max' g'.
           trials n tot nodes g (ok_count, frame_sum, frame_max) = Some (Inr ((ok', sum', max'), g')) \<and>
           0 \<le> ok' \<and> ok' \<le> ok_count + int n \<and>
           0 \<le> sum' \<and> sum' \<le> frame_sum + int n * (3000 + 65635 * nodes)"
  using assms(5,6)
proof (induction n arbitrary: g ok_count frame_sum frame_max)
  case 0
  then show ?case by simp
next
  case (Suc n)
  have "tot - 1 \<le> setsize (nodes - 1)"
    using assms(4) setsize_ge_21 [of "nodes - 1"] by (simp add: MAX_TOTAL_SENSORS_def)
  then have "tot - 1 \<le> setsize (nodes - 1) \<or> fair (nat (tot - 1)) g" by simp
  from random_partition_returns [OF assms(1,2,3) this]
  obtain counts g1 where rp: "random_partition g tot nodes = Some (Inr (counts, g1))"
    by blast
  from random_partition_partial [OF assms(1) rp]
  have len: "int (length counts) = nodes" by simp
  let ?f = "calculate_frame_time counts"
  let ?ok = "if ?f \<le> TDMA_FRAME_PERIOD_US then ok_count + 1 else ok_count"
  have fb: "0 \<le> ?f" "?f \<le> 3000 + 65635 * nodes"
    using frame_time_bounds [of counts] len by simp_all
  have ok1: "0 \<le> ?ok" "?ok \<le> ok_count + 1" using Suc.prems(1) by simp_all
  have s1: "0 \<le> frame_sum + ?f" using Suc.prems(2) fb(1) by simp
  from Suc.IH [OF ok1(1) s1, of g1 "max frame_max ?f"]
  obtain ok' sum' max' g' where
    t: "trials n tot nodes g1 (?ok, frame_sum + ?f, max frame_max ?f) = Some (Inr ((ok', sum', max'), g'))"
    and b: "0 \<le> ok'" "ok' \<le> ?ok + int n" "0 \<le> sum'"
           "sum' \<le> frame_sum + ?f + int n * (3000 + 65635 * nodes)"
    by blast
  have step: "trials (Suc n) tot nodes g (ok_count, frame_sum, frame_max) = Some (Inr ((ok', sum', max'), g'))"
    using rp t by (simp add: Let_def)
  have "ok' \<le> ok_count + int (Suc n)" using b(2) ok1(2) by simp
  moreover have "sum' \<le> frame_sum + int (Suc n) * (3000 + 65635 * nodes)"
    using b(4) fb(2) by (simp add: algebra_simps)
  ultimately show ?case using step b(1,3) by blast
qed

lemma int_truediv_returns:
  assumes "0 \<le> a" and "a \<le> 1000 * (3000 + 65635 * 8)"
  shows "int_truediv a RANDOM_DISTRIBUTIONS = Inr (double_round (of_int a / 1000))"
proof -
  have "(of_int a :: rat) \<le> of_int (1000 * (3000 + 65635 * 8))"
    using assms(2) by (rule of_int_le_iff [THEN iffD2])
  then have "(of_int a :: rat) / 1000 \<le> 528080" by simp
  moreover have "(0::rat) \<le> of_int a / 1000" using assms(1) by simp
  moreover have "(528080::rat) < (2 ^ 54 - 1) * 2 ^ 970" by simp
  ultimately have "\<not> (2 ^ 54 - 1) * 2 ^ 970 \<le> \<bar>of_int a / 1000 :: rat\<bar>" by simp
  then show ?thesis
    by (simp add: int_truediv_def RANDOM_DISTRIBUTIONS_def)
qed

lemma run_pair_returns:
  assumes "1 \<le> nodes" and "nodes \<le> tot" and "nodes \<le> MAX_NODES"
    and "tot \<le> MAX_TOTAL_SENSORS"
  shows "\<exists>r g'. run_pair g tot nodes = Some (Inr (r, g')) \<and>
           total_sensors r = tot \<and> node_count r = nodes"
proof -
  have t1: "1 \<le> tot" using assms by simp
  from trials_returns [OF t1 assms(1,2,4), of 0 0 "nat RANDOM_DISTRIBUTIONS" g 0]
  obtain ok' sum' max' g' where
    t: "trials (nat RANDOM_DISTRIBUTIONS) tot nodes g (0, 0, 0) = Some (Inr ((ok', sum', max'), g'))"
    and b: "0 \<le> ok'" "ok' \<le> 1000" "0 \<le> sum'" "sum' \<le> 1000 * (3000 + 65635 * nodes)"
    by (auto simp: RANDOM_DISTRIBUTIONS_def)
  have "sum' \<le> 1000 * (3000 + 65635 * 8)"
    using b(4) assms(3) by (simp add: MAX_NODES_def)
  from int_truediv_returns [OF b(3) this]
  have d2: "int_truediv sum' RANDOM_DISTRIBUTIONS = Inr (double_round (of_int sum' / 1000))" .
  have "ok' \<le> 1000 * (3000 + 65635 * 8)" using b(2) by simp
  from int_truediv_returns [OF b(1) this]
  have d1: "int_truediv ok' RANDOM_DISTRIBUTIONS = Inr (double_round (of_int ok' / 1000))" .
  show ?thesis
    by (simp add: run_pair_def t d1 d2)
qed

lemma nodes_loop_returns:
  assumes "\<forall>n\<in>set ns. 1 \<le> n \<and> n \<le> tot \<and> n \<le> MAX_NODES"
    and "tot \<le> MAX_TOTAL_SENSORS"
  shows "\<exists>rs g'. nodes_loop ns tot g results = Some (Inr (results @ rs, g')) \<and>
           map pair_of rs = map (Pair tot) ns \<and> (\<forall>r\<in>set rs. from_run_pair r)"
  using assms(1)
proof (induction ns arbitrary: g results)
  case Nil
  then show ?case by simp
next
  case (Cons n ns)
  then have n: "1 \<le> n" "n \<le> tot" "n \<le> MAX_NODES" by simp_all
  from run_pair_returns [OF n assms(2), of g]
  obtain r g1 where r: "run_pair g tot n = Some (Inr (r, g1))" "total_sensors r = tot" "node_count r = n"
    by blast
  have fr: "from_run_pair r" unfolding from_run_pair_def using r by blast
  from Cons.IH [of g1 "results @ [r]"] Cons.prems
  obtain rs g' where rs: "nodes_loop ns tot g1 (results @ [r]) = Some (Inr ((results @ [r]) @ rs, g'))"
    "map pair_of rs = map (Pair tot) ns" "\<forall>r\<in>set rs. from_run_pair r"
    by auto
  have "nodes_loop (n # ns) tot g results = Some (Inr (results @ (r # rs), g'))"
    using r(1) rs(1) by simp
  moreover have "map pair_of (r # rs) = map (Pair tot) (n # ns)"
    using rs(2) r(2,3) by (simp add: pair_of_def)
  moreover have "\<forall>x\<in>set (r # rs). from_run_pair x" using fr rs(3) by simp
  ultimately show ?case by blast
qed

lemma totals_loop_returns:
  assumes "\<forall>t\<in>set ts. t \<le> MAX_TOTAL_SENSORS"
  shows "\<exists>rs g'. totals_loop ts g results = Some (Inr (results @ rs, g')) \<and>
           map pair_of rs = run_pairs ts \<and> (\<forall>r\<in>set rs. from_run_pair r)"
  using assms
proof (induction ts arbitrary: g results)
  case Nil
  then show ?case by (simp add: run_pairs_def)
next
  case (Cons t ts)
  have "\<forall>n\<in>set [1..min MAX_NODES t]. 1 \<le> n \<and> n \<le> t \<and> n \<le> MAX_NODES" by simp
  moreover have "t \<le> MAX_TOTAL_SENSORS" using Cons.prems by simp
  ultimately obtain rs1 g1 where
    a: "nodes_loop [1..min MAX_NODES t] t g results = Some (Inr (results @ rs1, g1))"
    "map pair_of rs1 = map (Pair t) [1..min MAX_NODES t]" "\<forall>r\<in>set rs1. from_run_pair r"
    using nodes_loop_returns [of "[1..min MAX_NODES t]" t g results] by blast
  from Cons.IH [of g1 "results @ rs1"] Cons.prems
  obtain rs2 g' where b: "totals_loop ts g1 (results @ rs1) = Some (Inr ((results @ rs1) @ rs2, g'))"
    "map pair_of rs2 = run_pairs ts" "\<forall>r\<in>set rs2. from_run_pair r"
    by auto
  have "totals_loop (t # ts) g results = Some (Inr (results @ (rs1 @ rs2), g'))"
    using a(1) b(1) by simp
  moreover have "map pair_of (rs1 @ rs2) = run_pairs (t # ts)"
    using a(2) b(2) by (simp add: run_pairs_def)
  moreover have "\<forall>r\<in>set (rs1 @ rs2). from_run_pair r" using a(3) b(3) by auto
  ultimately show ?case by blast
qed

lemma run_returns:
  "\<exists>results g'. run g = Some (Inr (results, g')) \<and>
     map pair_of results = run_pairs [1..MAX_TOTAL_SENSORS] \<and> (\<forall>r\<in>set results. from_run_pair r)"
  using totals_loop_returns [of "[1..MAX_TOTAL_SENSORS]" g "[]"] by (simp add: run_def)

text \<open>
  C6. With the beacon loss probability 0.10 and two freewheel frames, the estimate for
  a schedule-ok rate of 1.0 is the double written \<open>0.999\<close>, and so is the factor
  \<open>1 - 0.10 ** 3\<close> computed in floating point; in exact arithmetic
  \<open>1 - (1/10)^3 = 999/1000\<close>. In general the result is the floating-point product of
  \<open>schedule_ok\<close> and \<open>1 - p ** (F + 1)\<close>.
\<close>

theorem estimated_success_rate_value:
  "estimated_success_rate 1 = double_round (999 / 1000) \<and>
   float_sub 1 (float_pow PACKET_LOSS_PROB (FREEWHEEL_FRAMES + 1)) = double_round (999 / 1000) \<and>
   (1 - (1 / 10) ^ nat (FREEWHEEL_FRAMES + 1) :: rat) = 999 / 1000 \<and>
   estimated_success_rate schedule_ok =
     float_mul schedule_ok (float_sub 1 (float_pow PACKET_LOSS_PROB (FREEWHEEL_FRAMES + 1))) \<and>
   PACKET_LOSS_PROB = double_round (1 / 10) \<and> FREEWHEEL_FRAMES = 2"
proof -
  have "(1 - (1 / 10) ^ nat (FREEWHEEL_FRAMES + 1) :: rat) = 999 / 1000"
    by (simp add: FREEWHEEL_FRAMES_def power3_eq_cube)
  moreover have "estimated_success_rate schedule_ok =
      float_mul schedule_ok (float_sub 1 (float_pow PACKET_LOSS_PROB (FREEWHEEL_FRAMES + 1)))"
    by (simp add: estimated_success_rate_def)
  ultimately show ?thesis
    using esr_1 beacon_ok_value by (simp add: PACKET_LOSS_PROB_def FREEWHEEL_FRAMES_def)
qed

text \<open>
  C7. For every state of the generator \<open>run\<close> returns its list of results: no call in
  the loops raises, and none fails to return. The pairs it evaluates are those of the two loop headers, one row
  each and in that order; every row is what the loop body returns for the row's own
  pair; and every pair satisfies \<open>1 \<le> node_count \<le> min(MAX_NODES, total_sensors)\<close>,
  so that the partition is never sampled with more nodes than sensors.
\<close>

theorem run_never_raises:
  "\<exists>results g'. run g = Some (Inr (results, g')) \<and>
     map pair_of results = run_pairs [1..MAX_TOTAL_SENSORS] \<and>
     (\<forall>r\<in>set results.
        from_run_pair r \<and> 1 \<le> node_count r \<and>
        node_count r \<le> min MAX_NODES (total_sensors r) \<and> node_count r \<le> total_sensors r)"
proof -
  from run_returns [of g] obtain results g' where
    r: "run g = Some (Inr (results, g'))" "map pair_of results = run_pairs [1..MAX_TOTAL_SENSORS]"
       "\<forall>r\<in>set results. from_run_pair r"
    by blast
  have "1 \<le> node_count x \<and> node_count x \<le> min MAX_NODES (total_sensors x) \<and>
        node_count x \<le> total_sensors x" if "x \<in> set results" for x
  proof -
    from that have "pair_of x \<in> set (map pair_of results)" by simp
    then have "(total_sensors x, node_count x) \<in> set (run_pairs [1..MAX_TOTAL_SENSORS])"
      by (simp add: r(2) pair_of_def)
    then show ?thesis by (auto simp: run_pairs_def)
  qed
  with r show ?thesis by blast
qed

theorem run_never_raises_witness:
  "\<exists>results g'. run (sconst 0) = Some (Inr (results, g')) \<and> length results = 100 \<and>
     list_all (\<lambda>r. 1 \<le> node_count r \<and> node_count r \<le> min MAX_NODES (total_sensors r))
       results"
proof -
  from run_never_raises [of "sconst 0"] obtain results g' where
    r: "run (sconst 0) = Some (Inr (results, g'))" "map pair_of results = run_pairs [1..MAX_TOTAL_SENSORS]"
       "\<forall>r\<in>set results. 1 \<le> node_count r \<and> node_count r \<le> min MAX_NODES (total_sensors r)"
    by blast
  have "length (run_pairs [1..MAX_TOTAL_SENSORS]) = 100"
    by (simp add: run_pairs_def MAX_TOTAL_SENSORS_def MAX_NODES_def upto.simps)
  then have "length results = 100" using r(2) by (metis length_map)
  moreover have "list_all (\<lambda>r. 1 \<le> node_count r \<and> node_count r \<le> min MAX_NODES (total_sensors r))
       results"
    using r(3) by (simp add: list_all_iff)
  ultimately show ?thesis using r(1) by blast
qed

text \<open>
  C1 (as amended). With the reference constants the single-node scenario with 16
  sensors is feasible: the only partition is \<open>[16]\<close>, its frame time is 6774
  microseconds, within the frame period of 20000, so that for every state of the
  generator all trials are schedule-ok, the schedule-ok rate is 1.0, and the row for
  the pair (16, 1) that \<open>run\<close> reports is the one below.
\<close>

theorem single_node_16_feasible:
  "run_pair g 16 1 =
     Some (Inr (\<lparr>total_sensors = 16, node_count = 1, schedule_ok_rate = 1, avg_frame_us = 6774,
           max_frame_us = 6774, est_success_rate = double_round (999 / 1000)\<rparr>, g)) \<and>
   calculate_frame_time [16] = 6774 \<and> calculate_frame_time [16] \<le> TDMA_FRAME_PERIOD_US \<and>
   (\<exists>results g'. run g = Some (Inr (results, g')) \<and>
      \<lparr>total_sensors = 16, node_count = 1, schedule_ok_rate = 1, avg_frame_us = 6774,
        max_frame_us = 6774, est_success_rate = double_round (999 / 1000)\<rparr> \<in> set results)"
proof -
  let ?row = "\<lparr>total_sensors = 16, node_count = 1, schedule_ok_rate = 1, avg_frame_us = 6774,
        max_frame_us = 6774, est_success_rate = double_round (999 / 1000)\<rparr>"
  from run_returns [of g] obtain results g' where
    r: "run g = Some (Inr (results, g'))" "map pair_of results = run_pairs [1..MAX_TOTAL_SENSORS]"
       "\<forall>r\<in>set results. from_run_pair r"
    by blast
  have "(16, 1) \<in> set (run_pairs [1..MAX_TOTAL_SENSORS])"
    by (auto simp: run_pairs_def MAX_TOTAL_SENSORS_def MAX_NODES_def intro!: bexI [of _ 16])
  then have "(16, 1) \<in> pair_of ` set results" using r(2) by (metis set_map)
  then obtain x where x: "x \<in> set results" "total_sensors x = 16" "node_count x = 1"
    by (auto simp: pair_of_def)
  with r(3) obtain g1 g2 where "run_pair g1 16 1 = Some (Inr (x, g2))"
    by (auto simp: from_run_pair_def)
  then have "x = ?row" by (simp add: run_pair_16_1)
  with x(1) r(1) have "\<exists>results g'. run g = Some (Inr (results, g')) \<and> ?row \<in> set results" by blast
  then show ?thesis
    by (simp add: run_pair_16_1 frame_time_16 TDMA_FRAME_PERIOD_US_def TDMA_FRAME_PERIOD_MS_def)
qed

text \<open>
  C1 as stated fails: from the generator that always draws 0 the scenario
  \<open>total_sensors = 16\<close>, \<open>node_count = 1\<close> has the schedule-ok rate 1.0, which is not
  below 1.0, and the frame time of \<open>[16]\<close> is 6774, which does not exceed 20000.
\<close>

theorem single_node_16_counterexample:
  "run_pair (sconst 0) 16 1 =
     Some (Inr (\<lparr>total_sensors = 16, node_count = 1, schedule_ok_rate = 1, avg_frame_us = 6774,
           max_frame_us = 6774, est_success_rate = double_round (999 / 1000)\<rparr>, sconst 0)) \<and>
   \<not> (1::double) < 1 \<and>
   calculate_frame_time [16] = 6774 \<and> \<not> 20000 < calculate_frame_time [16]"
  by (simp add: run_pair_16_1 frame_time_16)

end
